theory Spec2Isabelle
  imports Main
begin

section \<open>Strings\<close>

text \<open>
  A Python \<open>str\<close> is modelled as a \<^typ>\<open>string\<close>, one \<^typ>\<open>char\<close> per code point
  (code points below 256). \<open>isspace\<close> lists the code points in that range for which
  Python's \<open>str.isspace\<close> holds; \<open>str.strip()\<close> without argument removes them
  from both ends.
\<close>

definition isspace :: "char \<Rightarrow> bool" where
  "isspace c \<longleftrightarrow> c \<in> set [CHR 0x09, CHR 0x0A, CHR 0x0B, CHR 0x0C, CHR 0x0D,
                          CHR 0x1C, CHR 0x1D, CHR 0x1E, CHR 0x1F, CHR 0x20,
                          CHR 0x85, CHR 0xA0]"

definition strip :: "string \<Rightarrow> string" where
  "strip s = rev (dropWhile isspace (rev (dropWhile isspace s)))"

text \<open>Truth value of \<open>x.strip()\<close>: a string is true when it is not empty.\<close>

definition nonblank :: "string \<Rightarrow> bool" where
  "nonblank x \<longleftrightarrow> strip x \<noteq> []"

section \<open>The line normalizer: \<open>process_list\<close>\<close>

text \<open>
  \<open>next((i for i, x in enumerate(lst) if x.strip()), None)\<close>: the index of the first
  element that is true after \<open>strip\<close>; the first argument is the counter of
  \<open>enumerate\<close>.
\<close>

fun next_index :: "nat \<Rightarrow> string list \<Rightarrow> nat option" where
  "next_index i [] = None"
| "next_index i (x # xs) = (if nonblank x then Some i else next_index (Suc i) xs)"

text \<open>
  One round of the collapsing loop. \<open>collapsed_list[-1]\<close> is \<^const>\<open>last\<close>, read only
  when the list is not empty; \<open>collapsed_list[-2]\<close> is read only when the list has two
  elements or more.
\<close>

definition collapse_step :: "string list \<Rightarrow> string \<Rightarrow> string list" where
  "collapse_step collapsed_list item =
     (if nonblank item \<or> (collapsed_list \<noteq> [] \<and> nonblank (last collapsed_list))
      then collapsed_list @ [item]
      else if length collapsed_list < 2
              \<or> nonblank (collapsed_list ! (length collapsed_list - 2))
      then collapsed_list @ [item]
      else collapsed_list)"

fun collapse :: "string list \<Rightarrow> string list \<Rightarrow> string list" where
  "collapse collapsed_list [] = collapsed_list"
| "collapse collapsed_list (item # lst) = collapse (collapse_step collapsed_list item) lst"

text \<open>
  The last loop runs over the indices of \<open>collapsed_list\<close> and overwrites in place
  every element that is the empty string (\<open>not item\<close>) with \<open>"\n"\<close>.
\<close>

definition canonicalize :: "string list \<Rightarrow> string list" where
  "canonicalize collapsed_list =
     fold (\<lambda>index cl. if cl ! index = [] then cl[index := ''\<newline>''] else cl)
          [0..<length collapsed_list] collapsed_list"

definition process_list :: "string list \<Rightarrow> string list" where
  "process_list lst =
     (let lst1 = (case next_index 0 lst of
                    Some first_non_empty_index \<Rightarrow> drop first_non_empty_index lst
                  | None \<Rightarrow> lst);
          lst2 = (case next_index 0 (rev lst1) of
                    Some last_non_empty_index \<Rightarrow>
                      take (length lst1 - last_non_empty_index) lst1
                  | None \<Rightarrow> lst1)
      in canonicalize (collapse [] lst2))"

section \<open>MIME messages and the walker\<close>

text \<open>
  An \<open>email.message.Message\<close> as the code reads it: the header accessor \<open>get\<close>
  (the value of a header, or \<open>None\<close>), the result of \<open>get_content_type()\<close>, and
  the payload. For a \<open>Multipart\<close> node \<open>is_multipart()\<close> holds and
  \<open>get_payload()\<close> is the list of sub-messages; for a \<open>Single\<close> node it is a string.
\<close>

datatype message =
    Multipart "string \<Rightarrow> string option" string "message list"
  | Single "string \<Rightarrow> string option" string string

fun get :: "message \<Rightarrow> string \<Rightarrow> string option" where
  "get (Multipart headers ct subparts) name = headers name"
| "get (Single headers ct payload) name = headers name"

text \<open>The generator \<open>extract_text_plain_parts\<close>; the list holds what it yields, in order.\<close>

fun extract_text_plain_parts :: "message \<Rightarrow> string list" where
  "extract_text_plain_parts (Multipart headers ct subparts) =
     concat (map extract_text_plain_parts subparts)"
| "extract_text_plain_parts (Single headers ct payload) =
     (if ct = ''text/plain'' then [payload] else [])"

text \<open>
  The leaves of a MIME tree, depth first and left to right, each with its content type
  and its payload: the sequence the description of the walker refers to.
\<close>

fun leaves :: "message \<Rightarrow> (string \<times> string) list" where
  "leaves (Multipart headers ct subparts) = concat (map leaves subparts)"
| "leaves (Single headers ct payload) = [(ct, payload)]"

section \<open>The e-mail parser: \<open>parse_email\<close>\<close>

record datetime =
  year :: nat
  month :: nat
  day :: nat
  hour :: nat
  minute :: nat
  second :: nat
  utcoffset :: int

text \<open>
  The dataclass \<open>Email\<close>. A field holds whatever the constructor is given, so
  \<open>subject\<close> can hold \<open>None\<close> although it is declared \<open>str\<close>.
\<close>

record Email =
  date :: "datetime option"
  subject :: "string option"
  body :: string
  attachments :: "string list"
  attachment_links :: "string list"

datatype error = TypeError | ValueError

text \<open>
  \<open>str.splitlines()\<close>: a line ends at \<open>\n\<close>, \<open>\r\<close>, \<open>\r\n\<close>, \<open>\x0b\<close>, \<open>\x0c\<close>,
  \<open>\x1c\<close>, \<open>\x1d\<close>, \<open>\x1e\<close> or \<open>\x85\<close> (the line boundaries below code point 256);
  the line ends are not kept, and a string that ends with a line end has no empty last
  line. The first argument is the line read so far.
\<close>

definition is_linebreak :: "char \<Rightarrow> bool" where
  "is_linebreak c \<longleftrightarrow> c \<in> set [CHR 0x0A, CHR 0x0D, CHR 0x0B, CHR 0x0C,
                               CHR 0x1C, CHR 0x1D, CHR 0x1E, CHR 0x85]"

fun splitlines_from :: "string \<Rightarrow> string \<Rightarrow> string list" where
  "splitlines_from line [] = (if line = [] then [] else [line])"
| "splitlines_from line [c] =
     (if is_linebreak c then [line] else [line @ [c]])"
| "splitlines_from line (c # d # s) =
     (if c = CHR 0x0D \<and> d = CHR 0x0A then line # splitlines_from [] s
      else if is_linebreak c then line # splitlines_from [] (d # s)
      else splitlines_from (line @ [c]) (d # s))"

definition splitlines :: "string \<Rightarrow> string list" where
  "splitlines s = splitlines_from [] s"

text \<open>\<open>sep.join(parts)\<close>.\<close>

fun join :: "string \<Rightarrow> string list \<Rightarrow> string" where
  "join sep [] = []"
| "join sep [x] = x"
| "join sep (x # y # ys) = x @ sep @ join sep (y # ys)"

text \<open>
  The loop over the plain-text parts; the first argument, \<open>body'\<close>, is the list
  \<open>body\<close> of the source (the name \<open>body\<close> is the field of the record).
\<close>

fun body_loop :: "string list \<Rightarrow> string list \<Rightarrow> string list" where
  "body_loop body' [] = body'"
| "body_loop body' (part # parts) =
     (let lines = splitlines part;
          cleaned_lines = map strip lines;
          collapsed_lines = process_list cleaned_lines;
          message = join [] collapsed_lines
      in body_loop (body' @ [message]) parts)"

text \<open>
  \<open>parse_email\<close>. The parameter \<open>strptime\<close> stands for the standard library's
  \<open>datetime.strptime\<close> at the fixed format \<open>"%a, %d %b %Y %H:%M:%S %z"\<close>; it is
  \<open>None\<close> where the library raises \<open>ValueError\<close>. Given \<open>None\<close> instead of a
  string (the header is absent) the library raises \<open>TypeError\<close>. Nothing catches
  either, so both end \<open>parse_email\<close>.
\<close>

definition parse_email :: "(string \<Rightarrow> datetime option) \<Rightarrow> message \<Rightarrow> error + Email" where
  "parse_email strptime mime_message =
     (let subject' = get mime_message ''Subject'';
          message_date = get mime_message ''Date''
      in case message_date of
           None \<Rightarrow> Inl TypeError
         | Some d \<Rightarrow>
             (case strptime d of
                None \<Rightarrow> Inl ValueError
              | Some message_date_object \<Rightarrow>
                  Inr \<lparr>date = Some message_date_object,
                       subject = subject',
                       body = join ''\<newline>''
                                (body_loop [] (extract_text_plain_parts mime_message)),
                       attachments = [],
                       attachment_links = []\<rparr>))"

section \<open>Auxiliary notions for the proofs\<close>

text \<open>What the last loop of \<open>process_list\<close> does to one element.\<close>

definition marker :: "string \<Rightarrow> string" where
  "marker item = (if item = [] then ''\<newline>'' else item)"

text \<open>
  The collapsing loop as a function of the number \<open>n\<close> of blank elements at the end of
  what has been kept so far.
\<close>

fun squeeze :: "nat \<Rightarrow> string list \<Rightarrow> string list" where
  "squeeze n [] = []"
| "squeeze n (x # xs) =
     (if nonblank x then x # squeeze 0 xs
      else if n < 2 then x # squeeze (Suc n) xs
      else squeeze n xs)"

text \<open>A list without the blank elements at its two ends.\<close>

definition trim :: "string list \<Rightarrow> string list" where
  "trim lst = rev (dropWhile (\<lambda>x. \<not> nonblank x) (rev (dropWhile (\<lambda>x. \<not> nonblank x) lst)))"

text \<open>
  A blank element is interior when a non-blank element comes before it and another
  one after it.
\<close>

definition has_interior_blank :: "string list \<Rightarrow> bool" where
  "has_interior_blank lst \<longleftrightarrow>
     (\<exists>j<length lst. \<not> nonblank (lst ! j) \<and> (\<exists>i<j. nonblank (lst ! i))
        \<and> (\<exists>k<length lst. j < k \<and> nonblank (lst ! k)))"

section \<open>Properties of the normalizer\<close>

lemma nonblank_iff: "nonblank x \<longleftrightarrow> (\<exists>c\<in>set x. \<not> isspace c)"
proof -
  let ?ys = "dropWhile isspace x"
  have "dropWhile isspace (rev ?ys) = [] \<longleftrightarrow> ?ys = []"
  proof
    assume a: "dropWhile isspace (rev ?ys) = []"
    show "?ys = []"
    proof (rule ccontr)
      assume n: "?ys \<noteq> []"
      then have "\<not> isspace (hd ?ys)" by (rule hd_dropWhile)
      moreover have "hd ?ys \<in> set (rev ?ys)" using n by simp
      ultimately show False using a by (auto simp: dropWhile_eq_Nil_conv)
    qed
  next
    assume e: "?ys = []"
    show "dropWhile isspace (rev ?ys) = []" unfolding e by simp
  qed
  then have "strip x = [] \<longleftrightarrow> ?ys = []"
    by (simp add: strip_def)
  also have "\<dots> \<longleftrightarrow> (\<forall>c\<in>set x. isspace c)"
    by (simp add: dropWhile_eq_Nil_conv)
  finally show ?thesis
    by (simp add: nonblank_def)
qed

lemma nonblank_Nil [simp]: "\<not> nonblank []"
  by (simp add: nonblank_iff)

lemma nonblank_newline [simp]: "\<not> nonblank ''\<newline>''"
  by (simp add: nonblank_iff isspace_def)

lemma nonblank_marker [simp]: "nonblank (marker x) = nonblank x"
  by (simp add: marker_def)

lemma marker_nonblank [simp]: "nonblank x \<Longrightarrow> marker x = x"
  by (auto simp: marker_def)

lemma marker_idem [simp]: "marker (marker x) = marker x"
  by (simp add: marker_def)

lemma canonicalize_take:
  "k \<le> length cl \<Longrightarrow>
   fold (\<lambda>index cl. if cl ! index = [] then cl[index := ''\<newline>''] else cl) [0..<k] cl
     = map marker (take k cl) @ drop k cl"
proof (induction k)
  case 0
  then show ?case by simp
next
  case (Suc k)
  then have k: "k < length cl" by simp
  let ?cl' = "map marker (take k cl) @ drop k cl"
  have nth: "?cl' ! k = cl ! k"
    using k by (simp add: nth_append)
  have upd: "?cl'[k := v] = map marker (take k cl) @ v # drop (Suc k) cl" for v
    using k by (simp add: list_update_append upd_conv_take_nth_drop)
  have same: "?cl' = map marker (take k cl) @ cl ! k # drop (Suc k) cl"
    using k by (simp add: Cons_nth_drop_Suc)
  have tk: "map marker (take (Suc k) cl) = map marker (take k cl) @ [marker (cl ! k)]"
    using k by (simp add: take_Suc_conv_app_nth)
  have "fold (\<lambda>index cl. if cl ! index = [] then cl[index := ''\<newline>''] else cl) [0..<Suc k] cl
          = (if ?cl' ! k = [] then ?cl'[k := ''\<newline>''] else ?cl')"
    using Suc.IH k by simp
  also have "\<dots> = map marker (take k cl) @ marker (cl ! k) # drop (Suc k) cl"
  proof (cases "cl ! k = []")
    case True
    then show ?thesis unfolding nth upd by (simp add: marker_def)
  next
    case False
    then show ?thesis unfolding nth using same by (simp add: marker_def)
  qed
  finally show ?case by (simp add: tk)
qed

lemma canonicalize_map: "canonicalize cl = map marker cl"
  using canonicalize_take [of "length cl" cl] by (simp add: canonicalize_def)

lemma next_index_None: "next_index i lst = None \<longleftrightarrow> (\<forall>x\<in>set lst. \<not> nonblank x)"
  by (induction lst arbitrary: i) auto

lemma next_index_Some:
  "\<exists>x\<in>set lst. nonblank x \<Longrightarrow>
   next_index i lst = Some (i + length (takeWhile (\<lambda>x. \<not> nonblank x) lst))"
proof (induction lst arbitrary: i)
  case Nil
  then show ?case by simp
next
  case (Cons a lst)
  show ?case
  proof (cases "nonblank a")
    case True
    then show ?thesis by simp
  next
    case False
    with Cons.prems have "\<exists>x\<in>set lst. nonblank x" by auto
    from Cons.IH [OF this, of "Suc i"] False show ?thesis by simp
  qed
qed

lemma take_rev_dropWhile:
  "take (length xs - length (takeWhile P (rev xs))) xs = rev (dropWhile P (rev xs))"
  by (simp add: dropWhile_eq_drop rev_drop)

lemma collapse_step_squeeze:
  "collapse_step acc item =
     (if nonblank item \<or> length (takeWhile (\<lambda>x. \<not> nonblank x) (rev acc)) < 2
      then acc @ [item] else acc)"
proof (cases acc rule: rev_cases)
  case Nil
  then show ?thesis by (simp add: collapse_step_def)
next
  case (snoc ys y)
  show ?thesis
  proof (cases ys rule: rev_cases)
    case Nil
    with snoc show ?thesis by (simp add: collapse_step_def)
  next
    case (snoc zs z)
    with \<open>acc = ys @ [y]\<close> show ?thesis
      by (simp add: collapse_step_def nth_append)
  qed
qed

lemma collapse_squeeze:
  "collapse acc lst = acc @ squeeze (length (takeWhile (\<lambda>x. \<not> nonblank x) (rev acc))) lst"
proof (induction lst arbitrary: acc)
  case Nil
  then show ?case by simp
next
  case (Cons item lst)
  show ?case
    by (simp add: Cons.IH collapse_step_squeeze) 
qed

lemma process_list_blank:
  "\<forall>x\<in>set lst. \<not> nonblank x \<Longrightarrow> process_list lst = map marker (squeeze 0 lst)"
  by (simp add: process_list_def Let_def canonicalize_map collapse_squeeze
      next_index_None [THEN iffD2])

lemma process_list_trim:
  assumes "\<exists>x\<in>set lst. nonblank x"
  shows "process_list lst = map marker (squeeze 0 (trim lst))"
proof -
  let ?l1 = "dropWhile (\<lambda>x. \<not> nonblank x) lst"
  have 1: "next_index 0 lst = Some (length (takeWhile (\<lambda>x. \<not> nonblank x) lst))"
    using next_index_Some [OF assms, of 0] by simp
  have d: "drop (length (takeWhile (\<lambda>x. \<not> nonblank x) lst)) lst = ?l1"
    by (simp add: dropWhile_eq_drop)
  have ex: "\<exists>x\<in>set (rev ?l1). nonblank x"
    using assms by (metis (mono_tags, lifting) dropWhile_eq_Nil_conv hd_dropWhile hd_in_set set_rev)
  have 2: "next_index 0 (rev ?l1) = Some (length (takeWhile (\<lambda>x. \<not> nonblank x) (rev ?l1)))"
    using next_index_Some [OF ex, of 0] by simp
  have t: "take (length ?l1 - length (takeWhile (\<lambda>x. \<not> nonblank x) (rev ?l1))) ?l1
             = rev (dropWhile (\<lambda>x. \<not> nonblank x) (rev ?l1))"
    by (rule take_rev_dropWhile)
  show ?thesis
    by (simp add: process_list_def Let_def 1 d 2 t canonicalize_map collapse_squeeze trim_def)
qed

lemma squeeze_blank:
  "\<forall>x\<in>set xs. \<not> nonblank x \<Longrightarrow> squeeze n xs = take (2 - n) xs"
proof (induction xs arbitrary: n)
  case Nil
  then show ?case by simp
next
  case (Cons x xs)
  then show ?case by (cases "n < 2") (simp_all add: take_Cons' Suc_diff_Suc)
qed

lemma squeeze_nonblank: "\<forall>x\<in>set xs. nonblank x \<Longrightarrow> squeeze n xs = xs"
  by (induction xs arbitrary: n) simp_all

lemma squeeze_append:
  "nonblank a \<Longrightarrow> squeeze n (xs @ a # ys) = squeeze n xs @ a # squeeze 0 ys"
  by (induction xs arbitrary: n) simp_all

lemma squeeze_filter: "filter nonblank (squeeze n xs) = filter nonblank xs"
  by (induction xs arbitrary: n) simp_all

lemma squeeze_idem: "squeeze n (squeeze n xs) = squeeze n xs"
  by (induction xs arbitrary: n) simp_all

lemma squeeze_marker: "squeeze n (map marker xs) = map marker (squeeze n xs)"
  by (induction xs arbitrary: n) simp_all

lemma squeeze_Nil_iff: "squeeze 0 xs = [] \<longleftrightarrow> xs = []"
  by (cases xs) simp_all

lemma trim_core:
  assumes pre: "\<forall>x\<in>set pre. \<not> nonblank x" and post: "\<forall>x\<in>set post. \<not> nonblank x"
    and mid: "mid \<noteq> []" "nonblank (hd mid)" "nonblank (last mid)"
  shows "trim (pre @ mid @ post) = mid"
proof -
  let ?nb = "\<lambda>x. \<not> nonblank x"
  obtain a rest where ar: "mid = a # rest"
    using mid(1) by (cases mid) auto
  obtain front b where fb: "mid = front @ [b]"
    using mid(1) by (cases mid rule: rev_cases) auto
  have a: "nonblank a" using mid(2) ar by simp
  have b: "nonblank b" using mid(3) fb by simp
  have "dropWhile ?nb (pre @ (mid @ post)) = dropWhile ?nb (mid @ post)"
    by (rule dropWhile_append2) (use pre in blast)
  also have "\<dots> = mid @ post"
    using a by (simp add: ar)
  finally have 1: "dropWhile ?nb (pre @ mid @ post) = mid @ post" .
  have rp: "\<forall>x\<in>set (rev post). \<not> nonblank x" using post by simp
  have "dropWhile ?nb (rev post @ (b # rev front)) = dropWhile ?nb (b # rev front)"
    by (rule dropWhile_append2) (use rp in blast)
  also have "\<dots> = b # rev front"
    using b by simp
  finally have 2: "dropWhile ?nb (rev (mid @ post)) = rev mid"
    by (simp add: fb)
  show ?thesis
    unfolding trim_def 1 2 by simp
qed

lemma trim_filter: "filter nonblank (trim xs) = filter nonblank xs"
proof -
  let ?nb = "\<lambda>x. \<not> nonblank x"
  have d: "filter nonblank (dropWhile ?nb ys) = filter nonblank ys" for ys
    by (induction ys) simp_all
  have "filter nonblank (trim xs)
          = rev (filter nonblank (dropWhile ?nb (rev (dropWhile ?nb xs))))"
    by (simp add: trim_def rev_filter)
  also have "\<dots> = rev (filter nonblank (rev (dropWhile ?nb xs)))"
    by (simp only: d)
  also have "\<dots> = filter nonblank (dropWhile ?nb xs)"
    by (simp add: rev_filter)
  also have "\<dots> = filter nonblank xs"
    by (rule d)
  finally show ?thesis .
qed

lemma rev_dropWhile_rev_Cons:
  "\<not> P a \<Longrightarrow> rev (dropWhile P (rev (a # rest))) \<noteq> []
     \<and> hd (rev (dropWhile P (rev (a # rest)))) = a"
  by (simp add: dropWhile_append)

lemma trim_decomp:
  assumes "\<exists>x\<in>set lst. nonblank x"
  shows "trim lst \<noteq> [] \<and> nonblank (hd (trim lst)) \<and> nonblank (last (trim lst))"
proof -
  let ?nb = "\<lambda>x. \<not> nonblank x"
  let ?d = "dropWhile ?nb lst"
  have dne: "?d \<noteq> []"
    using assms by (simp add: dropWhile_eq_Nil_conv)
  then have hd: "\<not> ?nb (hd ?d)" by (rule hd_dropWhile)
  obtain a rest where ar: "?d = a # rest"
    using dne by (cases ?d) auto
  have a: "\<not> ?nb a" using hd unfolding ar by simp
  have t: "trim lst = rev (dropWhile ?nb (rev (a # rest)))"
    unfolding trim_def ar ..
  have ne: "trim lst \<noteq> []" and h: "hd (trim lst) = a"
    unfolding t using rev_dropWhile_rev_Cons [of ?nb a rest, OF a] by blast+
  have rne: "dropWhile ?nb (rev (a # rest)) \<noteq> []"
    using ne unfolding t by (simp only: rev_is_Nil_conv not_False_eq_True)
  then have "\<not> ?nb (hd (dropWhile ?nb (rev (a # rest))))" by (rule hd_dropWhile)
  moreover have "last (trim lst) = hd (dropWhile ?nb (rev (a # rest)))"
    unfolding t by (rule last_rev)
  ultimately have l: "nonblank (last (trim lst))" by simp
  show ?thesis using ne h a l by simp
qed

lemma process_list_ends:
  assumes "mid \<noteq> []" "nonblank (hd mid)" "nonblank (last mid)"
  shows "process_list mid = map marker (squeeze 0 mid)"
    and "process_list mid \<noteq> []"
    and "hd (process_list mid) = hd mid"
    and "last (process_list mid) = last mid"
proof -
  have ex: "\<exists>x\<in>set mid. nonblank x"
    using assms by (cases mid) auto
  have "trim ([] @ mid @ []) = mid"
    by (rule trim_core) (use assms in simp_all)
  then have t: "trim mid = mid" by simp
  show p: "process_list mid = map marker (squeeze 0 mid)"
    by (simp add: process_list_trim [OF ex] t)
  obtain a rest where mid: "mid = a # rest" using assms(1) by (cases mid) auto
  with assms(2) have a: "nonblank a" by simp
  have "map marker (squeeze 0 mid) \<noteq> []" using a by (simp add: mid)
  then show "process_list mid \<noteq> []" unfolding p .
  have "hd (map marker (squeeze 0 mid)) = hd mid" using a by (simp add: mid)
  then show "hd (process_list mid) = hd mid" unfolding p .
  obtain front b where snoc: "mid = front @ [b]"
    using assms(1) by (cases mid rule: rev_cases) auto
  with assms(3) have b: "nonblank b" by simp
  have "squeeze 0 (front @ b # []) = squeeze 0 front @ b # squeeze 0 []"
    using b by (rule squeeze_append)
  then have "last (map marker (squeeze 0 mid)) = last mid"
    using b by (simp add: snoc)
  then show "last (process_list mid) = last mid" unfolding p .
qed

section \<open>The claims about the normalizer\<close>

text \<open>
  Claim C1, as amended. When every element of the list is blank (the empty list
  included), \<open>process_list\<close> returns the first two elements of the list (all of
  it when it has fewer), each empty string replaced by \<open>"\n"\<close>. The result is the
  empty sequence for the empty list only: the two trimming steps are skipped when no
  element is non-blank, and the collapsing loop keeps the first two blanks.
\<close>

theorem process_list_all_blank:
  assumes "\<forall>x\<in>set lst. \<not> nonblank x"
  shows "process_list lst = map (\<lambda>item. if item = [] then ''\<newline>'' else item) (take 2 lst)"
  using assms
  by (simp add: process_list_blank squeeze_blank marker_def [abs_def])

text \<open>The theorem at a list of three blank elements and at the empty list.\<close>

theorem process_list_all_blank_witness:
  "\<not> nonblank '''' \<and> \<not> nonblank '' ''
   \<and> process_list ['''', '' '', ''''] = [''\<newline>'', '' '']
   \<and> process_list [] = []"
proof -
  have b: "\<forall>x\<in>set ['''', '' '', '''']. \<not> nonblank x"
    by (simp add: nonblank_def strip_def isspace_def)
  have e: "\<forall>x\<in>set ([] :: string list). \<not> nonblank x" by simp
  show ?thesis
    using b process_list_all_blank [OF b] process_list_all_blank [OF e] by simp
qed

text \<open>
  Claim C1 as stated fails: the list holding one empty string is all blank, and the
  result is not the empty sequence.
\<close>

theorem process_list_all_blank_counterexample:
  "\<not> nonblank '''' \<and> process_list [''''] = [''\<newline>''] \<and> process_list [''''] \<noteq> []"
  by (simp add: nonblank_def strip_def process_list_def canonicalize_def collapse_step_def)

text \<open>
  Claim C9, as amended. A list none of whose elements is blank, at its ends or
  inside, is returned unchanged by \<open>process_list\<close>.
\<close>

theorem process_list_no_blank:
  assumes "\<forall>x\<in>set lst. nonblank x"
  shows "process_list lst = lst"
proof (cases "lst = []")
  case True
  then show ?thesis by (simp add: process_list_blank)
next
  case False
  then have ex: "\<exists>x\<in>set lst. nonblank x" using assms by (cases lst) auto
  have hl: "nonblank (hd lst)" "nonblank (last lst)" using assms False by simp_all
  have "trim ([] @ lst @ []) = lst"
    by (rule trim_core) (use False hl in simp_all)
  then have t: "trim lst = lst" by simp
  have m: "map marker lst = lst"
    using assms by (simp add: map_idI)
  show ?thesis
    by (simp add: process_list_trim [OF ex] t squeeze_nonblank [OF assms] m)
qed

text \<open>The theorem at a list of two non-blank lines.\<close>

theorem process_list_no_blank_witness:
  "nonblank ''a'' \<and> nonblank ''b c'' \<and> process_list [''a'', ''b c''] = [''a'', ''b c'']"
proof -
  have n: "\<forall>x\<in>set [''a'', ''b c'']. nonblank x"
    by (simp add: nonblank_def strip_def isspace_def)
  show ?thesis using n process_list_no_blank [OF n] by simp
qed

text \<open>
  Claim C9 as stated fails: a non-empty list with a blank element at its start and no
  interior blank element is not returned unchanged, the leading blank is removed.
\<close>

theorem process_list_unchanged_counterexample:
  "['''', ''a''] \<noteq> [] \<and> \<not> has_interior_blank ['''', ''a'']
   \<and> process_list ['''', ''a''] = [''a''] \<and> process_list ['''', ''a''] \<noteq> ['''', ''a'']"
proof -
  have "\<not> has_interior_blank ['''', ''a'']"
    by (auto simp: has_interior_blank_def less_Suc_eq numeral_2_eq_2)
  moreover have "process_list ['''', ''a''] = [''a'']"
    by (simp add: nonblank_def strip_def isspace_def process_list_def canonicalize_def collapse_step_def)
  ultimately show ?thesis by simp
qed

text \<open>
  Claim C10. The non-blank elements of the output of \<open>process_list\<close> are the
  non-blank elements of its input, the same elements in the same order: none is
  dropped, duplicated, moved or rewritten.
\<close>

theorem process_list_nonblank_filter:
  "filter nonblank (process_list lst) = filter nonblank lst"
proof (cases "\<exists>x\<in>set lst. nonblank x")
  case True
  have m: "filter nonblank (map marker xs) = filter nonblank xs" for xs
    by (induction xs) simp_all
  show ?thesis
    by (simp add: process_list_trim [OF True] m squeeze_filter trim_filter)
next
  case False
  then have b: "\<forall>x\<in>set lst. \<not> nonblank x" by simp
  have m: "filter nonblank (map marker xs) = filter nonblank xs" for xs
    by (induction xs) simp_all
  show ?thesis
    by (simp add: process_list_blank [OF b] m squeeze_filter)
qed

text \<open>
  Claim C3. Write a list with a non-blank element as \<open>pre @ mid @ post\<close>, where
  \<open>pre\<close> holds the blank elements before the first non-blank element, \<open>post\<close>
  those after the last one, and \<open>mid\<close> begins and ends with a non-blank element.
  Then \<open>process_list\<close> gives the result it gives for \<open>mid\<close> alone, whatever the
  lengths of \<open>pre\<close> and \<open>post\<close>, and that result begins with the first and ends
  with the last non-blank element of the input: no boundary blank is left.
\<close>

theorem process_list_boundary:
  assumes "\<forall>x\<in>set pre. \<not> nonblank x" and "\<forall>x\<in>set post. \<not> nonblank x"
    and "mid \<noteq> []" and "nonblank (hd mid)" and "nonblank (last mid)"
  shows "process_list (pre @ mid @ post) = process_list mid
         \<and> process_list mid \<noteq> []
         \<and> hd (process_list mid) = hd mid
         \<and> last (process_list mid) = last mid"
proof -
  have ex: "\<exists>x\<in>set (pre @ mid @ post). nonblank x"
    using assms(3,4) by (cases mid) auto
  have "process_list (pre @ mid @ post) = map marker (squeeze 0 (trim (pre @ mid @ post)))"
    by (rule process_list_trim [OF ex])
  also have "\<dots> = map marker (squeeze 0 mid)"
    by (simp only: trim_core [OF assms])
  also have "\<dots> = process_list mid"
    by (simp only: process_list_ends(1) [OF assms(3-5)])
  finally show ?thesis
    using process_list_ends(2-4) [OF assms(3-5)] by simp
qed

text \<open>The theorem at three leading and two trailing blanks around three lines.\<close>

theorem process_list_boundary_witness:
  "\<not> nonblank '''' \<and> \<not> nonblank '' ''
   \<and> [''a'', '''', ''b''] \<noteq> [] \<and> nonblank (hd [''a'', '''', ''b''])
   \<and> nonblank (last [''a'', '''', ''b''])
   \<and> process_list (['''', '' '', ''''] @ [''a'', '''', ''b''] @ ['''', ''''])
        = process_list [''a'', '''', ''b'']
   \<and> process_list [''a'', '''', ''b''] = [''a'', ''\<newline>'', ''b'']"
proof -
  have 1: "\<forall>x\<in>set ['''', '' '', '''']. \<not> nonblank x"
    by (simp add: nonblank_def strip_def isspace_def)
  have 2: "\<forall>x\<in>set ['''', '''']. \<not> nonblank x"
    by (simp add: nonblank_def strip_def)
  have 3: "[''a'', '''', ''b''] \<noteq> []" by simp
  have 4: "nonblank (hd [''a'', '''', ''b''])"
    by (simp add: nonblank_def strip_def isspace_def)
  have 5: "nonblank (last [''a'', '''', ''b''])"
    by (simp add: nonblank_def strip_def isspace_def)
  have 6: "process_list [''a'', '''', ''b''] = [''a'', ''\<newline>'', ''b'']"
    by (simp add: nonblank_def strip_def isspace_def process_list_def canonicalize_def
        collapse_step_def)
  show ?thesis
    using 1 2 3 4 5 6 process_list_boundary [OF 1 2 3 4 5] by simp
qed

text \<open>
  Claim C8. Applying \<open>process_list\<close> to its own output returns that output
  unchanged.
\<close>

theorem process_list_idempotent:
  "process_list (process_list lines) = process_list lines"
proof (cases "\<exists>x\<in>set lines. nonblank x")
  case True
  let ?out = "map marker (squeeze 0 (trim lines))"
  have out: "process_list lines = ?out" by (rule process_list_trim [OF True])
  from trim_decomp [OF True]
  have t: "trim lines \<noteq> []" "nonblank (hd (trim lines))" "nonblank (last (trim lines))"
    by simp_all
  have e: "process_list (trim lines) = ?out"
    by (rule process_list_ends(1) [OF t])
  have ne: "?out \<noteq> []"
    using process_list_ends(2) [OF t] unfolding e .
  have h: "nonblank (hd ?out)"
    using process_list_ends(3) [OF t] t(2) unfolding e by simp
  have l: "nonblank (last ?out)"
    using process_list_ends(4) [OF t] t(3) unfolding e by simp
  have "process_list ?out = map marker (squeeze 0 ?out)"
    by (rule process_list_ends(1) [OF ne h l])
  also have "\<dots> = ?out"
    by (simp add: squeeze_marker squeeze_idem)
  finally show ?thesis by (simp only: out)
next
  case False
  then have b: "\<forall>x\<in>set lines. \<not> nonblank x" by simp
  let ?out = "map marker (squeeze 0 lines)"
  have out: "process_list lines = ?out" by (rule process_list_blank [OF b])
  have "set (squeeze 0 lines) \<subseteq> set lines"
    using b by (simp add: squeeze_blank set_take_subset)
  then have b': "\<forall>x\<in>set ?out. \<not> nonblank x"
    using b by auto
  have "process_list ?out = map marker (squeeze 0 ?out)"
    by (rule process_list_blank [OF b'])
  also have "\<dots> = ?out"
    by (simp add: squeeze_marker squeeze_idem)
  finally show ?thesis by (simp only: out)
qed

text \<open>
  A run of two or more blank elements between two non-blank ones, for any list: two
  elements are kept for it, the first two of the run, each replaced by \<open>"\n"\<close>
  when it is the empty string.
\<close>

lemma process_list_run_general:
  assumes a: "nonblank a" and b: "nonblank b"
    and run: "\<forall>x\<in>set run. \<not> nonblank x" and k: "2 \<le> length run"
  shows "process_list (pre @ a # run @ b # post)
           = process_list (pre @ [a]) @ [marker (run ! 0), marker (run ! 1)]
               @ process_list (b # post)
         \<and> last (process_list (pre @ [a])) = a
         \<and> hd (process_list (b # post)) = b
         \<and> \<not> nonblank (marker (run ! 0)) \<and> \<not> nonblank (marker (run ! 1))
         \<and> (run ! 0 = [] \<and> run ! 1 = [] \<longrightarrow>
              [marker (run ! 0), marker (run ! 1)] = [''\<newline>'', ''\<newline>''])"
proof -
  let ?nb = "\<lambda>x. \<not> nonblank x"
  obtain r0 r1 rest where r: "run = r0 # r1 # rest"
    using k by (cases run; cases "tl run") auto
  have rb: "\<not> nonblank r0" "\<not> nonblank r1" using run r by simp_all
  let ?pre' = "dropWhile ?nb pre"
  let ?post' = "rev (dropWhile ?nb (rev post))"
  have ex1: "\<exists>x\<in>set (pre @ a # run @ b # post). nonblank x" using a by auto
  have ex2: "\<exists>x\<in>set (pre @ [a]). nonblank x" using a by auto
  have ex3: "\<exists>x\<in>set (b # post). nonblank x" using b by auto
  have d: "dropWhile ?nb (pre @ a # ys) = ?pre' @ a # ys" for ys
    using a by (induction pre) simp_all
  have e: "rev (dropWhile ?nb (rev (xs @ b # post))) = xs @ b # ?post'" for xs
  proof -
    have "dropWhile ?nb (rev post @ b # rev xs) = dropWhile ?nb (rev post) @ b # rev xs"
      using b by (induction "rev post" arbitrary: post) (simp_all add: dropWhile_append)
    then show ?thesis by simp
  qed
  have t1: "trim (pre @ a # run @ b # post) = ?pre' @ a # run @ b # ?post'"
    using e [of "?pre' @ a # run"] by (simp add: trim_def d)
  have t2: "trim (pre @ [a]) = ?pre' @ [a]"
    using a by (simp add: trim_def d)
  have t3: "trim (b # post) = b # ?post'"
    using e [of "[]"] b by (simp add: trim_def)
  have s: "squeeze 0 (run @ b # ys) = r0 # r1 # b # squeeze 0 ys" for ys
  proof -
    have "\<forall>x\<in>set rest. \<not> nonblank x" using run r by simp
    then have "squeeze 2 (rest @ b # ys) = b # squeeze 0 ys"
      using b by (induction rest) simp_all
    then show ?thesis using rb r by (simp add: numeral_2_eq_2)
  qed
  have sa: "squeeze 0 (?pre' @ [a]) = squeeze 0 ?pre' @ [a]"
    using squeeze_append [OF a, of 0 ?pre' "[]"] by simp
  have sb: "squeeze 0 (b # ?post') = b # squeeze 0 ?post'"
    using b by simp
  have "squeeze 0 (?pre' @ a # run @ b # ?post')
          = squeeze 0 ?pre' @ a # squeeze 0 (run @ b # ?post')"
    by (rule squeeze_append [OF a])
  also have "\<dots> = squeeze 0 (?pre' @ [a]) @ [r0, r1] @ squeeze 0 (b # ?post')"
    unfolding sa sb s by simp
  finally have S: "squeeze 0 (?pre' @ a # run @ b # ?post')
          = squeeze 0 (?pre' @ [a]) @ [r0, r1] @ squeeze 0 (b # ?post')" .
  have P1: "process_list (pre @ a # run @ b # post)
              = map marker (squeeze 0 (?pre' @ a # run @ b # ?post'))"
    by (simp only: process_list_trim [OF ex1] t1)
  have P2: "process_list (pre @ [a]) = map marker (squeeze 0 (?pre' @ [a]))"
    by (simp only: process_list_trim [OF ex2] t2)
  have P3: "process_list (b # post) = map marker (squeeze 0 (b # ?post'))"
    by (simp only: process_list_trim [OF ex3] t3)
  have R: "run ! 0 = r0" "run ! 1 = r1" by (simp_all add: r)
  have main: "process_list (pre @ a # run @ b # post)
      = process_list (pre @ [a]) @ [marker (run ! 0), marker (run ! 1)] @ process_list (b # post)"
    unfolding P1 P2 P3 S R by simp
  have l: "last (process_list (pre @ [a])) = a"
    unfolding P2 sa using a by simp
  have h: "hd (process_list (b # post)) = b"
    unfolding P3 sb using b by simp
  show ?thesis
    using main l h rb unfolding R by (simp add: marker_def)
qed

text \<open>
  Claim C2. The lines \<open>process_list\<close> is given have been stripped by the caller, so
  every element is its own \<open>strip\<close>. Let \<open>run\<close> be a maximal run of two or more
  consecutive blank elements between the non-blank elements \<open>a\<close> and \<open>b\<close>. The
  output of \<open>process_list\<close> is the output for the part up to \<open>a\<close> (ending with
  \<open>a\<close>), then exactly two \<open>"\n"\<close> entries for the run, whatever its length, then the
  output for the part from \<open>b\<close> on (beginning with \<open>b\<close>).
\<close>

theorem process_list_run:
  assumes stripped: "\<forall>x\<in>set (pre @ a # run @ b # post). strip x = x"
    and a: "nonblank a" and b: "nonblank b"
    and run: "\<forall>x\<in>set run. \<not> nonblank x" and k: "2 \<le> length run"
  shows "process_list (pre @ a # run @ b # post)
           = process_list (pre @ [a]) @ [''\<newline>'', ''\<newline>''] @ process_list (b # post)
         \<and> last (process_list (pre @ [a])) = a
         \<and> hd (process_list (b # post)) = b"
proof -
  have empty: "x = []" if "x \<in> set run" for x
  proof -
    have "strip x = x" using stripped that by simp
    moreover have "strip x = []" using run that by (simp add: nonblank_def)
    ultimately show ?thesis by simp
  qed
  have "0 < length run" and "1 < length run"
    using k by linarith+
  then have "run ! 0 \<in> set run" and "run ! 1 \<in> set run"
    by (simp_all only: nth_mem)
  then have "run ! 0 = []" and "run ! 1 = []"
    by (simp_all only: empty)
  with process_list_run_general [OF a b run k, of pre post] show ?thesis
    by (simp add: marker_def)
qed

text \<open>
  The theorem at a run of three empty strings, in a list of stripped lines with
  blanks at both ends.
\<close>

theorem process_list_run_witness:
  "strip '''' = '''' \<and> strip ''a'' = ''a'' \<and> strip ''b'' = ''b''
   \<and> nonblank ''a'' \<and> nonblank ''b'' \<and> \<not> nonblank ''''
   \<and> 2 \<le> length ['''', '''', (''''::string)]
   \<and> process_list ([''''] @ ''a'' # ['''', '''', ''''] @ ''b'' # [''''])
       = process_list ([''''] @ [''a'']) @ [''\<newline>'', ''\<newline>'']
           @ process_list (''b'' # [''''])
   \<and> process_list ([''''] @ ''a'' # ['''', '''', ''''] @ ''b'' # [''''])
       = [''a'', ''\<newline>'', ''\<newline>'', ''b'']"
proof -
  have s: "\<forall>x\<in>set ([''''] @ ''a'' # ['''', '''', ''''] @ ''b'' # ['''']). strip x = x"
    by (simp add: strip_def isspace_def)
  have a: "nonblank ''a''" by (simp add: nonblank_def strip_def isspace_def)
  have b: "nonblank ''b''" by (simp add: nonblank_def strip_def isspace_def)
  have r: "\<forall>x\<in>set ['''', '''', '''']. \<not> nonblank x" by (simp add: nonblank_def strip_def)
  have k: "2 \<le> length ['''', '''', (''''::string)]" by simp
  have l: "process_list ([''''] @ [''a'']) = [''a'']"
    by (simp add: nonblank_def strip_def isspace_def process_list_def canonicalize_def
        collapse_step_def)
  have h: "process_list (''b'' # ['''']) = [''b'']"
    by (simp add: nonblank_def strip_def isspace_def process_list_def canonicalize_def
        collapse_step_def)
  have st: "strip '''' = '''' \<and> strip ''a'' = ''a'' \<and> strip ''b'' = ''b''"
    by (simp add: strip_def isspace_def)
  from process_list_run [OF s a b r k]
  have m: "process_list ([''''] @ ''a'' # ['''', '''', ''''] @ ''b'' # [''''])
       = process_list ([''''] @ [''a'']) @ [''\<newline>'', ''\<newline>'']
           @ process_list (''b'' # [''''])" by (rule conjunct1)
  have m2: "process_list ([''''] @ ''a'' # ['''', '''', ''''] @ ''b'' # [''''])
       = [''a'', ''\<newline>'', ''\<newline>'', ''b'']"
    unfolding m l h by simp
  show ?thesis using st a b r k m m2 by simp
qed

section \<open>The claims about the walker and the parser\<close>

lemma join_empty_sep: "join [] xs = concat xs"
proof (induction xs)
  case Nil
  show ?case by simp
next
  case (Cons x xs)
  then show ?case by (cases xs) simp_all
qed

lemma body_loop_map:
  "body_loop acc parts
     = acc @ map (\<lambda>part. concat (process_list (map strip (splitlines part)))) parts"
  by (induction parts arbitrary: acc) (simp_all add: Let_def join_empty_sep)

text \<open>
  Claim C5. What \<open>extract_text_plain_parts\<close> yields is the list of the payloads of the
  leaves whose content type is \<open>"text/plain"\<close>, taken from the leaves of the tree in
  depth-first, left-to-right order: one element for each such leaf, nothing for any
  other leaf, hence nothing at all when there is no such leaf. For the leaves
  \<open>A\<close> (text/plain), \<open>B\<close> (text/html), \<open>C\<close> (text/plain) under one container it
  yields \<open>[A, C]\<close>.
\<close>

theorem extract_text_plain_parts_leaves:
  "extract_text_plain_parts m
     = map snd (filter (\<lambda>leaf. fst leaf = ''text/plain'') (leaves m))
   \<and> extract_text_plain_parts
        (Multipart h ct [Single ha ''text/plain'' A, Single hb ''text/html'' B,
                         Single hc ''text/plain'' C]) = [A, C]"
proof -
  have "extract_text_plain_parts m
          = map snd (filter (\<lambda>leaf. fst leaf = ''text/plain'') (leaves m))"
  proof (induction m rule: extract_text_plain_parts.induct)
    case (1 headers ct subparts)
    then show ?case
      by (induction subparts) (simp_all add: filter_concat map_concat)
  next
    case (2 headers ct payload)
    then show ?case by simp
  qed
  then show ?thesis by simp
qed

text \<open>The theorem at a nested tree with four leaves, two of them plain text.\<close>

theorem extract_text_plain_parts_leaves_witness:
  "extract_text_plain_parts
     (Multipart Map.empty ''multipart/mixed''
        [Multipart Map.empty ''multipart/alternative''
           [Single Map.empty ''text/plain'' ''one'', Single Map.empty ''text/html'' ''two''],
         Single Map.empty ''image/png'' ''three'',
         Single Map.empty ''text/plain'' ''four''])
   = [''one'', ''four'']"
  using extract_text_plain_parts_leaves
    [of "Multipart Map.empty ''multipart/mixed''
        [Multipart Map.empty ''multipart/alternative''
           [Single Map.empty ''text/plain'' ''one'', Single Map.empty ''text/html'' ''two''],
         Single Map.empty ''image/png'' ''three'',
         Single Map.empty ''text/plain'' ''four'']"]
  by simp

text \<open>
  Claim C6. When the message has no \<open>Date\<close> header, \<open>parse_email\<close> ends with the
  \<open>TypeError\<close> of \<open>strptime\<close>; when the header is there and \<open>strptime\<close> rejects
  it, with its \<open>ValueError\<close>. Whenever \<open>parse_email\<close> returns an \<open>Email\<close>, its
  date is not \<open>None\<close>.
\<close>

theorem parse_email_date_error:
  "(get m ''Date'' = None \<longrightarrow> parse_email strptime m = Inl TypeError)
   \<and> (\<forall>d. get m ''Date'' = Some d \<and> strptime d = None
          \<longrightarrow> parse_email strptime m = Inl ValueError)
   \<and> (\<forall>e. parse_email strptime m = Inr e \<longrightarrow> date e \<noteq> None)"
  by (auto simp: parse_email_def Let_def split: option.splits)

text \<open>
  The theorem at a message without a \<open>Date\<close> header, at one whose header is
  \<open>"01/01/2024"\<close> and at one whose date parses, for a \<open>strptime\<close> that accepts one
  date string only.
\<close>

theorem parse_email_date_error_witness:
  "parse_email
     (\<lambda>s. if s = ''Mon, 01 Jan 2024 10:00:00 +0000''
           then Some \<lparr>year = 2024, month = 1, day = 1, hour = 10, minute = 0, second = 0,
                      utcoffset = 0\<rparr>
           else None)
     (Single Map.empty ''text/plain'' ''Hello'') = Inl TypeError
   \<and> parse_email
     (\<lambda>s. if s = ''Mon, 01 Jan 2024 10:00:00 +0000''
           then Some \<lparr>year = 2024, month = 1, day = 1, hour = 10, minute = 0, second = 0,
                      utcoffset = 0\<rparr>
           else None)
     (Single [''Date'' \<mapsto> ''01/01/2024''] ''text/plain'' ''Hello'') = Inl ValueError
   \<and> (\<exists>e. parse_email
     (\<lambda>s. if s = ''Mon, 01 Jan 2024 10:00:00 +0000''
           then Some \<lparr>year = 2024, month = 1, day = 1, hour = 10, minute = 0, second = 0,
                      utcoffset = 0\<rparr>
           else None)
     (Single [''Date'' \<mapsto> ''Mon, 01 Jan 2024 10:00:00 +0000''] ''text/plain'' ''Hello'')
       = Inr e \<and> date e \<noteq> None)"
proof -
  let ?sp = "\<lambda>s. if s = ''Mon, 01 Jan 2024 10:00:00 +0000''
           then Some \<lparr>year = 2024, month = 1, day = 1, hour = 10, minute = 0, second = 0,
                      utcoffset = 0\<rparr>
           else None"
  let ?m1 = "Single Map.empty ''text/plain'' ''Hello''"
  let ?m2 = "Single [''Date'' \<mapsto> ''01/01/2024''] ''text/plain'' ''Hello''"
  have 1: "get ?m1 ''Date'' = None" by simp
  have 2: "get ?m2 ''Date'' = Some ''01/01/2024'' \<and> ?sp ''01/01/2024'' = None" by simp
  have a: "parse_email ?sp ?m1 = Inl TypeError"
    using parse_email_date_error [of ?m1 ?sp] 1 by blast
  have b: "parse_email ?sp ?m2 = Inl ValueError"
    using parse_email_date_error [of ?m2 ?sp] 2 by blast
  let ?m3 = "Single [''Date'' \<mapsto> ''Mon, 01 Jan 2024 10:00:00 +0000''] ''text/plain'' ''Hello''"
  obtain e where e: "parse_email ?sp ?m3 = Inr e"
    by (simp add: parse_email_def Let_def)
  then have "date e \<noteq> None"
    using parse_email_date_error [of ?m3 ?sp] by blast
  with e have c: "\<exists>e. parse_email ?sp ?m3 = Inr e \<and> date e \<noteq> None" by blast
  show ?thesis using a b c by (intro conjI)
qed

text \<open>
  Claim C7. When the date parses, \<open>parse_email\<close> returns an \<open>Email\<close> whose body is
  the per-part strings joined with a single \<open>"\n"\<close>, the string of a part being its
  normalized lines (split, stripped line by line, passed through \<open>process_list\<close>)
  joined with no separator. The parts \<open>"A\nB"\<close> and \<open>"C"\<close> give the body
  \<open>"AB\nC"\<close>, and no part at all gives the empty string.
\<close>

theorem parse_email_body:
  assumes "get m ''Date'' = Some d" and "strptime d = Some t"
  shows "\<exists>e. parse_email strptime m = Inr e
           \<and> body e = join ''\<newline>''
                (map (\<lambda>part. join [] (process_list (map strip (splitlines part))))
                     (extract_text_plain_parts m))
           \<and> (extract_text_plain_parts m = [''A\<newline>B'', ''C''] \<longrightarrow> body e = ''AB\<newline>C'')
           \<and> (extract_text_plain_parts m = [] \<longrightarrow> body e = [])"
proof -
  let ?e = "\<lparr>date = Some t, subject = get m ''Subject'',
             body = join ''\<newline>'' (body_loop [] (extract_text_plain_parts m)),
             attachments = [], attachment_links = []\<rparr>"
  have p: "parse_email strptime m = Inr ?e"
    using assms by (simp add: parse_email_def Let_def)
  have b: "body ?e = join ''\<newline>''
                (map (\<lambda>part. join [] (process_list (map strip (splitlines part))))
                     (extract_text_plain_parts m))"
    by (simp add: body_loop_map join_empty_sep)
  have ab: "join [] (process_list (map strip (splitlines ''A\<newline>B''))) = ''AB''"
    by (simp add: splitlines_def is_linebreak_def strip_def isspace_def process_list_def
        nonblank_def canonicalize_def collapse_step_def)
  have c: "join [] (process_list (map strip (splitlines ''C''))) = ''C''"
    by (simp add: splitlines_def is_linebreak_def strip_def isspace_def process_list_def
        nonblank_def canonicalize_def collapse_step_def)
  have x: "extract_text_plain_parts m = [''A\<newline>B'', ''C''] \<longrightarrow> body ?e = ''AB\<newline>C''"
    unfolding b using ab c by simp
  have z: "extract_text_plain_parts m = [] \<longrightarrow> body ?e = []"
    unfolding b by simp
  show ?thesis using p b x z by blast
qed

text \<open>
  The theorem at a multipart message with the plain-text parts \<open>"A\nB"\<close> and
  \<open>"C"\<close> around an HTML part, and at a message with no plain-text part.
\<close>

theorem parse_email_body_witness:
  "(\<exists>e. parse_email (\<lambda>s. Some \<lparr>year = 2024, month = 1, day = 1, hour = 10, minute = 0,
                                second = 0, utcoffset = 0\<rparr>)
          (Multipart [''Date'' \<mapsto> ''Mon, 01 Jan 2024 10:00:00 +0000'']
             ''multipart/mixed''
             [Single Map.empty ''text/plain'' ''A\<newline>B'',
              Single Map.empty ''text/html'' ''<p>A</p>'',
              Single Map.empty ''text/plain'' ''C'']) = Inr e
        \<and> body e = ''AB\<newline>C'')
   \<and> (\<exists>e. parse_email (\<lambda>s. Some \<lparr>year = 2024, month = 1, day = 1, hour = 10, minute = 0,
                                second = 0, utcoffset = 0\<rparr>)
          (Single [''Date'' \<mapsto> ''Mon, 01 Jan 2024 10:00:00 +0000''] ''text/html''
             ''<p>A</p>'') = Inr e
        \<and> body e = [])"
proof -
  let ?sp = "\<lambda>s::string. Some \<lparr>year = 2024, month = 1, day = 1, hour = 10, minute = 0,
                                second = 0, utcoffset = 0\<rparr>"
  let ?m = "Multipart [''Date'' \<mapsto> ''Mon, 01 Jan 2024 10:00:00 +0000'']
             ''multipart/mixed''
             [Single Map.empty ''text/plain'' ''A\<newline>B'',
              Single Map.empty ''text/html'' ''<p>A</p>'',
              Single Map.empty ''text/plain'' ''C'']"
  have d: "get ?m ''Date'' = Some ''Mon, 01 Jan 2024 10:00:00 +0000''" by simp
  have t: "?sp ''Mon, 01 Jan 2024 10:00:00 +0000''
             = Some \<lparr>year = 2024, month = 1, day = 1, hour = 10, minute = 0,
                      second = 0, utcoffset = 0\<rparr>" by simp
  have x: "extract_text_plain_parts ?m = [''A\<newline>B'', ''C'']" by simp
  from parse_email_body [OF d t] x
  have 1: "\<exists>e. parse_email ?sp ?m = Inr e \<and> body e = ''AB\<newline>C''" by blast
  let ?m0 = "Single [''Date'' \<mapsto> ''Mon, 01 Jan 2024 10:00:00 +0000''] ''text/html''
             ''<p>A</p>''"
  have d0: "get ?m0 ''Date'' = Some ''Mon, 01 Jan 2024 10:00:00 +0000''" by simp
  have x0: "extract_text_plain_parts ?m0 = []" by simp
  from parse_email_body [OF d0 t] x0
  have 2: "\<exists>e. parse_email ?sp ?m0 = Inr e \<and> body e = []" by blast
  show ?thesis using 1 2 by (rule conjI)
qed

text \<open>
  Claim C4 does not hold of the code. For a message with a valid \<open>Date\<close> header and
  no \<open>Subject\<close> header, \<open>get("Subject")\<close> is \<open>None\<close>, and that value is passed to
  the constructor of \<open>Email\<close>: the default \<open>""\<close> of the field is not used, and the
  subject of the result is \<open>None\<close>, not the empty string.
\<close>

theorem parse_email_missing_subject:
  "parse_email
     (\<lambda>s. if s = ''Mon, 01 Jan 2024 10:00:00 +0000''
           then Some \<lparr>year = 2024, month = 1, day = 1, hour = 10, minute = 0, second = 0,
                      utcoffset = 0\<rparr>
           else None)
     (Single [''Date'' \<mapsto> ''Mon, 01 Jan 2024 10:00:00 +0000''] ''text/plain'' ''Hello'')
   = Inr \<lparr>date = Some \<lparr>year = 2024, month = 1, day = 1, hour = 10, minute = 0,
                         second = 0, utcoffset = 0\<rparr>,
          subject = None, body = ''Hello'', attachments = [], attachment_links = []\<rparr>"
  by (simp add: parse_email_def Let_def splitlines_def is_linebreak_def strip_def isspace_def
      process_list_def nonblank_def canonicalize_def collapse_step_def)

end
